theory Spec2Isabelle
  imports Complex_Main "HOL-Library.Word"
begin

section \<open>Errors raised by the two modules\<close>

text \<open>
  The JavaScript exceptions that the code of \<^verbatim>\<open>lib/throttle.js\<close> and
  \<^verbatim>\<open>lib/check_stream.js\<close> can raise or hand to a callback. An exception
  is a value here: an operation that throws ends its output with the exception
  (\<open>Throttle_threw e\<close>, \<open>Stream_threw e\<close>) and returns the state as the
  statements before the \<^verbatim>\<open>throw\<close> left it. \<open>HashFinalized\<close> is the error of
  Node's hash object when it is used after \<^verbatim>\<open>digest\<close>.
\<close>

datatype js_error =
    AssertionError string
  | ThrottledError
  | MaxSizeExceededError int
  | HashFinalized

section \<open>High-resolution time\<close>

text \<open>
  \<^verbatim>\<open>process.hrtime()\<close> returns the pair \<^verbatim>\<open>[seconds, nanoseconds]\<close>, the second
  component being the part of the time below one second (0 .. 999999999).
  \<^verbatim>\<open>process.hrtime(prev)\<close> returns the difference to an earlier reading in the same
  format, and \<^verbatim>\<open>jsprim.hrtimeDiff(a, b)\<close> computes the same difference but asserts
  first that it is not negative.
\<close>

type_synonym hrtime = "int \<times> int"

definition hrtime_wf :: "hrtime \<Rightarrow> bool" where
  "hrtime_wf t = (0 \<le> fst t \<and> 0 \<le> snd t \<and> snd t < 1000000000)"

definition hrtime_le :: "hrtime \<Rightarrow> hrtime \<Rightarrow> bool" where
  "hrtime_le b a = (fst a > fst b \<or> (fst a = fst b \<and> snd a \<ge> snd b))"

definition hrtime_sub :: "hrtime \<Rightarrow> hrtime \<Rightarrow> hrtime" where
  "hrtime_sub a b =
     (if snd a \<ge> snd b then (fst a - fst b, snd a - snd b)
      else (fst a - fst b - 1, 1000000000 - (snd b - snd a)))"

definition process_hrtime :: "hrtime \<Rightarrow> hrtime \<Rightarrow> hrtime" where
  \<comment> \<open>\<^verbatim>\<open>process.hrtime(prev)\<close> when the clock reads \<open>now\<close>\<close>
  "process_hrtime now prev = hrtime_sub now prev"

definition hrtimeDiff :: "hrtime \<Rightarrow> hrtime \<Rightarrow> js_error + hrtime" where
  "hrtimeDiff a b =
     (if hrtime_le b a then Inr (hrtime_sub a b)
      else Inl (AssertionError ''negative differences not allowed''))"

definition hrtime_seconds :: "hrtime \<Rightarrow> real" where
  \<comment> \<open>the length of a time interval, in seconds\<close>
  "hrtime_seconds d = real_of_int (fst d) + real_of_int (snd d) / 10 ^ 9"

section \<open>The admission queue\<close>

text \<open>
  Modelled from the spec: the request queue is created by \<^verbatim>\<open>vasync.queue\<close>, whose
  code is not part of the sources. The queue below follows section 4.2 of the
  specification: \<open>submit\<close> begins running the item when fewer than
  \<open>concurrency\<close> items run and appends it to the pending sequence otherwise; the
  completion of a running item starts the oldest pending item, if there is one;
  \<open>queue_length\<close> is the number of pending plus the number of running items. Each
  operation also returns the items it started, in order.
\<close>

record 'a admission_queue =
  q_concurrency :: nat
  q_pending :: "'a list"
  q_running :: "'a list"

text \<open>
  Modelled from the spec: \<^verbatim>\<open>vasync.queue(worker, concurrency)\<close>, the empty queue
  with the given bound.
\<close>

definition new_queue :: "nat \<Rightarrow> 'a admission_queue" where
  "new_queue c = \<lparr>q_concurrency = c, q_pending = [], q_running = []\<rparr>"

text \<open>
  Modelled from the spec: \<^verbatim>\<open>push\<close> of the vasync queue, the \<open>submit\<close> of
  section 4.2: run the item at once when a slot is free, else append it to the
  pending sequence.
\<close>

definition submit :: "'a \<Rightarrow> 'a admission_queue \<Rightarrow> 'a admission_queue \<times> 'a list" where
  "submit w q =
     (if length (q_running q) < q_concurrency q
      then (q\<lparr>q_running := q_running q @ [w]\<rparr>, [w])
      else (q\<lparr>q_pending := q_pending q @ [w]\<rparr>, []))"

text \<open>
  Modelled from the spec: the completion callback of a running item of the vasync
  queue. Only a running item can complete; its slot goes to the oldest pending
  item, if there is one.
\<close>

definition complete :: "'a \<Rightarrow> 'a admission_queue \<Rightarrow> 'a admission_queue \<times> 'a list" where
  "complete w q =
     (if w \<in> set (q_running q) then
        (case q_pending q of
           [] \<Rightarrow> (q\<lparr>q_running := remove1 w (q_running q)\<rparr>, [])
         | p # ps \<Rightarrow>
             (q\<lparr>q_running := remove1 w (q_running q) @ [p], q_pending := ps\<rparr>, [p]))
      else (q, []))"

text \<open>
  Modelled from the spec: \<^verbatim>\<open>length()\<close> of the vasync queue, which section 4.2
  gives as the pending count plus the running count.
\<close>

definition queue_length :: "'a admission_queue \<Rightarrow> nat" where
  "queue_length q = length (q_pending q) + length (q_running q)"

datatype 'a queue_op = Submit 'a | Complete 'a

fun queue_step :: "'a queue_op \<Rightarrow> 'a admission_queue \<Rightarrow> 'a admission_queue \<times> 'a list" where
  "queue_step (Submit w) q = submit w q"
| "queue_step (Complete w) q = complete w q"

fun queue_run :: "'a queue_op list \<Rightarrow> 'a admission_queue \<Rightarrow> 'a admission_queue \<times> 'a list" where
  "queue_run [] q = (q, [])"
| "queue_run (x # xs) q =
     (let (q1, s1) = queue_step x q; (q2, s2) = queue_run xs q1 in (q2, s1 @ s2))"

fun submitted :: "'a queue_op list \<Rightarrow> 'a list" where
  "submitted [] = []"
| "submitted (Submit w # xs) = w # submitted xs"
| "submitted (Complete w # xs) = submitted xs"

section \<open>The throttle\<close>

text \<open>
  The request descriptor carries the method and the URL that the probes report and
  the slot \<^verbatim>\<open>throttleStartTime\<close>, \<open>None\<close> while nothing has been written to it.
  The tunables \<open>requestRateCapacity\<close> and \<open>rateCheckInterval\<close> and the cached
  rate are JavaScript numbers, taken as exact reals; \<open>concurrency\<close> and
  \<open>queueTolerance\<close> are the positive integers of the specification, and the
  request counters are natural numbers.
\<close>

record request =
  req_method :: string
  req_url :: string
  throttleStartTime :: "hrtime option"

record throttle_options =
  opt_enabled :: bool
  opt_concurrency :: nat
  opt_requestRateCapacity :: real
  opt_rateCheckInterval :: real
  opt_queueTolerance :: nat

record throttle =
  enabled :: bool
  concurrency :: nat
  requestRateCapacity :: real
  rateCheckInterval :: real
  queueTolerance :: nat
  requestQueue :: "request admission_queue"
  lastCheck :: hrtime
  mostRecentRequestRate :: real
  requestsPerCheckInterval :: nat
  requestsHandled :: nat

text \<open>
  What a call makes visible outside the throttle: the dtrace probes it fires (with
  the arguments the probe function returns), the calls of the continuation
  \<^verbatim>\<open>next\<close> (\<open>Next None\<close> is \<^verbatim>\<open>next()\<close>, \<open>Next (Some e)\<close> is \<^verbatim>\<open>next(e)\<close>),
  the work items the queue started, and an exception leaving the function.
\<close>

datatype throttle_event =
    Probe_request_rate_checked real
  | Probe_request_received string string nat
  | Probe_request_throttled nat real string string
  | Probe_request_handled string string int
  | Probe_queue_status nat nat
  | Next "js_error option"
  | Task_started request
  | Throttle_threw js_error

text \<open>The constructor: the assertions on the tunables, in the order of the source.\<close>

definition createThrottle :: "throttle_options \<Rightarrow> hrtime \<Rightarrow> js_error + throttle" where
  "createThrottle options now =
     (if \<not> opt_concurrency options > 0 then Inl (AssertionError ''concurrency must positive'')
      else if \<not> opt_requestRateCapacity options > 0
        then Inl (AssertionError ''requestRateCapacity must be positive'')
      else if \<not> opt_rateCheckInterval options > 0
        then Inl (AssertionError ''rateCheckInterval must be positive'')
      else if \<not> opt_queueTolerance options > 0
        then Inl (AssertionError ''queueTolerance must be positive'')
      else Inr \<lparr>enabled = opt_enabled options,
                concurrency = opt_concurrency options,
                requestRateCapacity = opt_requestRateCapacity options,
                rateCheckInterval = opt_rateCheckInterval options,
                queueTolerance = opt_queueTolerance options,
                requestQueue = new_queue (opt_concurrency options),
                lastCheck = now,
                mostRecentRequestRate = 0,
                requestsPerCheckInterval = 0,
                requestsHandled = 0\<rparr>)"

text \<open>
  \<^verbatim>\<open>computeRequestRate\<close>: \<open>checkTime\<close> is the clock reading the function takes.
  Only the nanosecond component \<^verbatim>\<open>elapsed[1]\<close> of the difference enters
  \<open>elapsedSec\<close>.
\<close>

definition computeRequestRate :: "hrtime \<Rightarrow> throttle \<Rightarrow> (js_error + real) \<times> throttle" where
  "computeRequestRate checkTime self =
     (case hrtimeDiff checkTime (lastCheck self) of
        Inl e \<Rightarrow> (Inl e, self)
      | Inr elapsed \<Rightarrow>
          (let elapsedSec = real_of_int (snd elapsed) / 10 ^ 9 in
           if elapsedSec = 0 then (Inr 0, self)
           else (Inr (real (requestsPerCheckInterval self) / elapsedSec),
                 self\<lparr>lastCheck := checkTime\<rparr>)))"

definition computeRequestLatency ::
  "hrtime \<Rightarrow> request option \<Rightarrow> js_error + hrtime \<times> throttle_event list" where
  "computeRequestLatency now r =
     (case r of
        None \<Rightarrow> Inl (AssertionError ''req missing'')
      | Some req \<Rightarrow>
          (case throttleStartTime req of
             None \<Rightarrow> Inl (AssertionError ''throttle start time missing'')
           | Some t \<Rightarrow>
               (let latency = process_hrtime now t in
                Inr (latency, [Probe_request_handled (req_method req) (req_url req) (snd latency)]))))"

text \<open>
  \<^verbatim>\<open>wait\<close> is split in three at the two places where its control flow joins:
  \<open>wait_proceed\<close> is the source from the assignment of \<^verbatim>\<open>req.throttleStartTime\<close>
  to the end, \<open>wait_admit\<close> is the source from the \<^verbatim>\<open>request_received\<close> probe on,
  and \<open>wait\<close> is the whole function. The three clock readings of a call are
  parameters: \<open>now1\<close> for \<^verbatim>\<open>process.hrtime(self.lastCheck)\<close>, \<open>now2\<close> for the reading
  inside \<^verbatim>\<open>computeRequestRate\<close>, \<open>now3\<close> for the start timestamp. The events
  fired so far are threaded through as \<open>evs\<close>.
\<close>

definition wait_proceed ::
  "hrtime \<Rightarrow> request \<Rightarrow> throttle \<Rightarrow> throttle_event list
     \<Rightarrow> throttle \<times> request \<times> throttle_event list" where
  "wait_proceed now3 req self evs =
     (let req1 = req\<lparr>throttleStartTime := Some now3\<rparr> in
      if enabled self then
        (let (q1, started) = submit req1 (requestQueue self) in
         (self\<lparr>requestQueue := q1\<rparr>, req1,
          evs @ map Task_started started
              @ [Probe_queue_status (length (q_pending q1)) (length (q_running q1))]))
      else
        (self, req1,
         evs @ [Next None,
                Probe_queue_status (length (q_pending (requestQueue self)))
                                   (length (q_running (requestQueue self)))]))"

definition wait_admit ::
  "hrtime \<Rightarrow> request \<Rightarrow> throttle \<Rightarrow> throttle_event list
     \<Rightarrow> throttle \<times> request \<times> throttle_event list" where
  "wait_admit now3 req self evs =
     (let evs1 = evs @ [Probe_request_received (req_method req) (req_url req)
                          (queue_length (requestQueue self))] in
      if mostRecentRequestRate self > requestRateCapacity self \<and>
         queue_length (requestQueue self) \<ge> queueTolerance self
      then
        (let evs2 = evs1 @ [Probe_request_throttled (queue_length (requestQueue self))
                              (mostRecentRequestRate self) (req_url req) (req_method req)] in
         if enabled self then (self, req, evs2 @ [Next (Some ThrottledError)])
         else wait_proceed now3 req self evs2)
      else wait_proceed now3 req self evs1)"

definition wait ::
  "hrtime \<Rightarrow> hrtime \<Rightarrow> hrtime \<Rightarrow> request \<Rightarrow> throttle
     \<Rightarrow> throttle \<times> request \<times> throttle_event list" where
  "wait now1 now2 now3 req self0 =
     (let self1 = self0\<lparr>requestsPerCheckInterval := requestsPerCheckInterval self0 + 1\<rparr>;
          elapsedSec = real_of_int (snd (process_hrtime now1 (lastCheck self1))) / 10 ^ 9
      in
      if elapsedSec > rateCheckInterval self1 then
        (case computeRequestRate now2 self1 of
           (Inl e, self2) \<Rightarrow> (self2, req, [Throttle_threw e])
         | (Inr rate, self2) \<Rightarrow>
             wait_admit now3 req
               (self2\<lparr>mostRecentRequestRate := rate, requestsPerCheckInterval := 0\<rparr>)
               [Probe_request_rate_checked rate])
      else wait_admit now3 req self1 [])"

text \<open>A call rejects the request when it hands a \<open>ThrottledError\<close> to \<^verbatim>\<open>next\<close>.\<close>

definition rejected :: "throttle \<times> request \<times> throttle_event list \<Rightarrow> bool" where
  "rejected r = (Next (Some ThrottledError) \<in> set (snd (snd r)))"

definition proceeded :: "throttle \<times> request \<times> throttle_event list \<Rightarrow> bool" where
  "proceeded r = (Next None \<in> set (snd (snd r)))"

definition threw :: "throttle \<times> request \<times> throttle_event list \<Rightarrow> bool" where
  "threw r = (\<exists>e. Throttle_threw e \<in> set (snd (snd r)))"

section \<open>The stream guard: CheckStream\<close>

subsection \<open>The runtime the stream relies on\<close>

text \<open>
  A chunk is a buffer of bytes. The hash object of Node's \<^verbatim>\<open>crypto\<close> module is kept
  symbolic: it accumulates the bytes it was fed, and \<^verbatim>\<open>digest\<close> returns the buffer
  \<open>Digest_of alg bytes\<close>. A hash object can be finalized once: \<^verbatim>\<open>update\<close> and
  \<^verbatim>\<open>digest\<close> throw after the first \<^verbatim>\<open>digest\<close>. The field \<open>h_digest_calls\<close>
  counts the calls of \<^verbatim>\<open>digest\<close>, the failed ones too. The encoding argument of
  \<^verbatim>\<open>update\<close> is ignored for a buffer.
\<close>

type_synonym byte = "8 word"

datatype buffer = Digest_of string "byte list"

datatype digest_result = Ret_buffer buffer | Ret_string string buffer

record hash_object =
  h_algorithm :: string
  h_data :: "byte list"
  h_digest_calls :: nat

definition createHash :: "string \<Rightarrow> hash_object" where
  "createHash alg = \<lparr>h_algorithm = alg, h_data = [], h_digest_calls = 0\<rparr>"

definition crypto_update :: "byte list \<Rightarrow> string \<Rightarrow> hash_object \<Rightarrow> js_error + hash_object" where
  "crypto_update chunk encoding h =
     (if h_digest_calls h > 0 then Inl HashFinalized
      else Inr (h\<lparr>h_data := h_data h @ chunk\<rparr>))"

definition crypto_digest :: "hash_object \<Rightarrow> hash_object \<times> (js_error + buffer)" where
  "crypto_digest h =
     (h\<lparr>h_digest_calls := h_digest_calls h + 1\<rparr>,
      if h_digest_calls h = 0 then Inr (Digest_of (h_algorithm h) (h_data h))
      else Inl HashFinalized)"

text \<open>
  The names of the events of the emitter, the callbacks waiting in the
  \<^verbatim>\<open>setImmediate\<close> queue (the one scheduled by the \<^verbatim>\<open>finish\<close> listener and the
  one scheduled by \<^verbatim>\<open>_write\<close> past the byte limit), and what an operation makes
  visible: the signals emitted by \<^verbatim>\<open>this.emit\<close>, the completion of a chunk's
  callback, an exception, and the value \<^verbatim>\<open>digest\<close> returns.
\<close>

datatype event_name = Ev_error | Ev_finish | Ev_length_exceeded | Ev_timeout | Ev_done

datatype immediate = Imm_done | Imm_write_cb

datatype stream_output =
    Emit_timeout
  | Emit_length_exceeded nat
  | Emit_done
  | Callback "js_error option"
  | Stream_threw js_error
  | Returned digest_result

record check_stream_options =
  opt_algorithm :: "string option"
  opt_maxBytes :: int
  opt_timeout :: nat
  opt_inbound :: bool
  opt_collector :: "string \<Rightarrow> nat"

text \<open>
  The object, followed by the part of the runtime that belongs to it: the timers
  that are armed (\<open>timer\<close> is the handle the object holds), whether the listener
  \<^verbatim>\<open>onFinish\<close> registered with \<^verbatim>\<open>once\<close> is still attached, the events the
  caller listens to, the pending immediates, and the counters of the collector.
  \<open>inbound\<close> is the property \<^verbatim>\<open>this.inbound\<close>, \<open>None\<close> while it is undefined;
  \<open>digest_cache\<close> is \<^verbatim>\<open>_digest\<close> and \<open>dead\<close> is \<^verbatim>\<open>_dead\<close>.
\<close>

record check_stream =
  algorithm :: string
  bytes :: nat
  hash :: hash_object
  maxBytes :: int
  start :: nat
  timeout :: nat
  timer :: nat
  counter :: string
  inbound :: "bool option"
  digest_cache :: "buffer option"
  dead :: bool
  live_timers :: "nat set"
  next_timer :: nat
  onFinish_attached :: bool
  listeners :: "event_name set"
  immediates :: "immediate list"
  collector :: "string \<Rightarrow> nat"

definition setTimeout :: "check_stream \<Rightarrow> check_stream \<times> nat" where
  "setTimeout s =
     (s\<lparr>live_timers := insert (next_timer s) (live_timers s), next_timer := next_timer s + 1\<rparr>,
      next_timer s)"

definition clearTimeout :: "nat \<Rightarrow> check_stream \<Rightarrow> check_stream" where
  "clearTimeout h s = s\<lparr>live_timers := live_timers s - {h}\<rparr>"

fun js_truthy :: "bool option \<Rightarrow> bool" where
  "js_truthy None = False"
| "js_truthy (Some b) = b"

subsection \<open>The operations of the source\<close>

text \<open>
  The constructor. It reads \<^verbatim>\<open>this.inbound\<close>, a property that neither it nor
  \<^verbatim>\<open>stream.Writable\<close> has assigned (the flag of the caller is \<^verbatim>\<open>opts.inbound\<close>).
\<close>

definition CheckStream :: "check_stream_options \<Rightarrow> nat \<Rightarrow> check_stream" where
  "CheckStream opts now =
     (let this_inbound = None;
          alg = (case opt_algorithm opts of
                   None \<Rightarrow> ''md5''
                 | Some a \<Rightarrow> if a = [] then ''md5'' else a)
      in \<lparr>algorithm = alg,
          bytes = 0,
          hash = createHash alg,
          maxBytes = opt_maxBytes opts,
          start = now,
          timeout = opt_timeout opts,
          timer = 0,
          counter = (if js_truthy this_inbound then ''muskie_received_bytes''
                     else ''muskie_sent_bytes''),
          inbound = this_inbound,
          digest_cache = None,
          dead = False,
          live_timers = {0},
          next_timer = 1,
          onFinish_attached = True,
          listeners = {},
          immediates = [],
          collector = opt_collector opts\<rparr>)"

definition abandon :: "check_stream \<Rightarrow> check_stream" where
  "abandon s =
     (let s1 = s\<lparr>dead := True\<rparr>;
          s2 = clearTimeout (timer s1) s1
      in s2\<lparr>listeners := listeners s2 - {Ev_error, Ev_finish, Ev_length_exceeded, Ev_timeout},
            onFinish_attached := False\<rparr>)"

definition digest_return :: "string option \<Rightarrow> buffer \<Rightarrow> digest_result" where
  "digest_return encoding d =
     (case encoding of
        None \<Rightarrow> Ret_buffer d
      | Some e \<Rightarrow> if e = [] then Ret_buffer d else Ret_string e d)"

definition digest :: "string option \<Rightarrow> check_stream \<Rightarrow> check_stream \<times> stream_output list" where
  "digest encoding s =
     (let s1 = clearTimeout (timer s) s in
      case digest_cache s1 of
        Some d \<Rightarrow> (s1, [Returned (digest_return encoding d)])
      | None \<Rightarrow>
          (case crypto_digest (hash s1) of
             (h, Inl e) \<Rightarrow> (s1\<lparr>hash := h\<rparr>, [Stream_threw e])
           | (h, Inr d) \<Rightarrow>
               (s1\<lparr>hash := h, digest_cache := Some d\<rparr>,
                [Returned (digest_return encoding d)])))"

text \<open>\<^verbatim>\<open>_write\<close>, named \<open>write_chunk\<close> here.\<close>

definition write_chunk ::
  "byte list \<Rightarrow> string \<Rightarrow> check_stream \<Rightarrow> check_stream \<times> stream_output list" where
  "write_chunk chunk encoding s =
     (if dead s then (s, [Callback None])
      else
        (let s1 = clearTimeout (timer s) s in
         case crypto_update chunk encoding (hash s1) of
           Inl e \<Rightarrow> (s1, [Stream_threw e])
         | Inr h \<Rightarrow>
             (let s2 = s1\<lparr>hash := h, bytes := bytes s1 + length chunk\<rparr>;
                  s3 = s2\<lparr>collector := (collector s2)
                            (counter s2 := collector s2 (counter s2) + length chunk)\<rparr>
              in
              if int (bytes s3) > maxBytes s3 then
                (s3\<lparr>immediates := immediates s3 @ [Imm_write_cb]\<rparr>,
                 [Emit_length_exceeded (bytes s3)])
              else
                (let (s4, h) = setTimeout s3 in (s4\<lparr>timer := h\<rparr>, [Callback None])))))"

text \<open>
  The callbacks the runtime runs later: the timer's \<^verbatim>\<open>onTimeoutHandler\<close>, the
  \<^verbatim>\<open>finish\<close> event of the writable stream reaching \<^verbatim>\<open>onFinish\<close>, and the two
  functions handed to \<^verbatim>\<open>setImmediate\<close>.
\<close>

definition timer_fires :: "nat \<Rightarrow> check_stream \<Rightarrow> check_stream \<times> stream_output list" where
  "timer_fires h s =
     (if h \<in> live_timers s then (s\<lparr>live_timers := live_timers s - {h}\<rparr>, [Emit_timeout])
      else (s, []))"

definition emit_finish :: "check_stream \<Rightarrow> check_stream \<times> stream_output list" where
  "emit_finish s =
     (if onFinish_attached s
      then (s\<lparr>onFinish_attached := False, immediates := immediates s @ [Imm_done]\<rparr>, [])
      else (s, []))"

definition onFinish_immediate :: "check_stream \<Rightarrow> check_stream \<times> stream_output list" where
  "onFinish_immediate s =
     (case digest_cache s of
        Some d \<Rightarrow> (s, [Emit_done])
      | None \<Rightarrow>
          (case crypto_digest (hash s) of
             (h, Inl e) \<Rightarrow> (s\<lparr>hash := h\<rparr>, [Stream_threw e])
           | (h, Inr d) \<Rightarrow> (s\<lparr>hash := h, digest_cache := Some d\<rparr>, [Emit_done])))"

definition write_immediate :: "check_stream \<Rightarrow> check_stream \<times> stream_output list" where
  "write_immediate s =
     (s, [Callback (if dead s then None else Some (MaxSizeExceededError (maxBytes s)))])"

definition run_immediate :: "check_stream \<Rightarrow> check_stream \<times> stream_output list" where
  "run_immediate s =
     (case immediates s of
        [] \<Rightarrow> (s, [])
      | Imm_done # rest \<Rightarrow> onFinish_immediate (s\<lparr>immediates := rest\<rparr>)
      | Imm_write_cb # rest \<Rightarrow> write_immediate (s\<lparr>immediates := rest\<rparr>))"

definition add_listener :: "event_name \<Rightarrow> check_stream \<Rightarrow> check_stream" where
  "add_listener ev s = s\<lparr>listeners := insert ev (listeners s)\<rparr>"

subsection \<open>Histories of a stream\<close>

datatype stream_op =
    Write "byte list" string
  | Abandon
  | Digest "string option"
  | Timer_fires nat
  | Finish
  | Immediate
  | On event_name

fun stream_step :: "stream_op \<Rightarrow> check_stream \<Rightarrow> check_stream \<times> stream_output list" where
  "stream_step (Write chunk encoding) s = write_chunk chunk encoding s"
| "stream_step Abandon s = (abandon s, [])"
| "stream_step (Digest encoding) s = digest encoding s"
| "stream_step (Timer_fires h) s = timer_fires h s"
| "stream_step Finish s = emit_finish s"
| "stream_step Immediate s = run_immediate s"
| "stream_step (On ev) s = (add_listener ev s, [])"

fun stream_run :: "stream_op list \<Rightarrow> check_stream \<Rightarrow> check_stream \<times> stream_output list" where
  "stream_run [] s = (s, [])"
| "stream_run (x # xs) s =
     (let (s1, o1) = stream_step x s; (s2, o2) = stream_run xs s1 in (s2, o1 @ o2))"

fun is_signal :: "stream_output \<Rightarrow> bool" where
  "is_signal Emit_timeout = True"
| "is_signal (Emit_length_exceeded n) = True"
| "is_signal Emit_done = True"
| "is_signal (Callback None) = False"
| "is_signal (Callback (Some e)) = True"
| "is_signal (Stream_threw e) = False"
| "is_signal (Returned r) = False"



definition write_all :: "byte list list \<Rightarrow> string \<Rightarrow> check_stream \<Rightarrow> check_stream \<times> stream_output list" where
  "write_all chunks encoding s = stream_run (map (\<lambda>c. Write c encoding) chunks) s"

text \<open>
  What every history keeps true: no timer is armed but the one the object holds,
  and the hash has been finalized exactly when \<^verbatim>\<open>_digest\<close> is set.
\<close>

definition stream_inv :: "check_stream \<Rightarrow> bool" where
  "stream_inv s =
     (live_timers s \<subseteq> {timer s} \<and>
      h_digest_calls (hash s) = (case digest_cache s of None \<Rightarrow> 0 | Some d \<Rightarrow> 1))"

section \<open>Derived notions used in the statements and proofs\<close>

subsection \<open>The throttle\<close>

text \<open>
  The admission test of \<^verbatim>\<open>wait\<close>, the test that makes it recompute the rate, the
  throttle and the events after the rate-tracking part of \<^verbatim>\<open>wait\<close> (the source up
  to the \<^verbatim>\<open>request_received\<close> probe), and the \<^verbatim>\<open>request_throttled\<close> probe
  with the arguments the source gives it.
\<close>

definition admission_cond :: "throttle \<Rightarrow> bool" where
  "admission_cond self =
     (mostRecentRequestRate self > requestRateCapacity self \<and>
      queue_length (requestQueue self) \<ge> queueTolerance self)"

definition recompute_due :: "hrtime \<Rightarrow> throttle \<Rightarrow> bool" where
  "recompute_due now1 self =
     (real_of_int (snd (process_hrtime now1 (lastCheck self))) / 10 ^ 9 > rateCheckInterval self)"

definition rate_update :: "hrtime \<Rightarrow> hrtime \<Rightarrow> throttle \<Rightarrow> throttle" where
  "rate_update now1 now2 self0 =
     (let self1 = self0\<lparr>requestsPerCheckInterval := requestsPerCheckInterval self0 + 1\<rparr> in
      if recompute_due now1 self0
      then (case computeRequestRate now2 self1 of
              (Inl e, self2) \<Rightarrow> self2
            | (Inr rate, self2) \<Rightarrow> self2\<lparr>mostRecentRequestRate := rate, requestsPerCheckInterval := 0\<rparr>)
      else self1)"

definition rate_events :: "hrtime \<Rightarrow> hrtime \<Rightarrow> throttle \<Rightarrow> throttle_event list" where
  "rate_events now1 now2 self0 =
     (let self1 = self0\<lparr>requestsPerCheckInterval := requestsPerCheckInterval self0 + 1\<rparr> in
      if recompute_due now1 self0
      then (case computeRequestRate now2 self1 of
              (Inl e, self2) \<Rightarrow> [Throttle_threw e]
            | (Inr rate, self2) \<Rightarrow> [Probe_request_rate_checked rate])
      else [])"

definition throttle_probe :: "request \<Rightarrow> throttle \<Rightarrow> throttle_event" where
  "throttle_probe req self =
     Probe_request_throttled (queue_length (requestQueue self)) (mostRecentRequestRate self)
       (req_url req) (req_method req)"

text \<open>A request and a congested throttle, for concrete evaluations.\<close>

definition example_request :: request where
  "example_request = \<lparr>req_method = ''GET'', req_url = ''/poseidon/stor/obj'', throttleStartTime = None\<rparr>"

definition busy_throttle :: "bool \<Rightarrow> throttle" where
  "busy_throttle on =
     \<lparr>enabled = on, concurrency = 1, requestRateCapacity = 10, rateCheckInterval = 1,
      queueTolerance = 2,
      requestQueue = \<lparr>q_concurrency = 1,
                       q_pending = [example_request\<lparr>req_url := ''/b''\<rparr>],
                       q_running = [example_request\<lparr>req_url := ''/a''\<rparr>]\<rparr>,
      lastCheck = (0, 0), mostRecentRequestRate = 20, requestsPerCheckInterval = 9,
      requestsHandled = 0\<rparr>"

subsection \<open>The admission queue\<close>

text \<open>
  What every history of the queue keeps true: no more items run than the
  concurrency allows, and an item waits only while every slot is taken.
\<close>

definition queue_inv :: "'a admission_queue \<Rightarrow> bool" where
  "queue_inv q =
     (length (q_running q) \<le> q_concurrency q \<and>
      (q_pending q = [] \<or> length (q_running q) = q_concurrency q))"

subsection \<open>The stream guard\<close>

text \<open>
  An output is \<open>quiet\<close> when it is no signal: a callback completed without an error
  or the value returned by \<^verbatim>\<open>digest\<close>. \<open>abandoned_inv\<close> is what holds of a
  stream from \<^verbatim>\<open>abandon\<close> on.
\<close>

fun quiet :: "stream_output \<Rightarrow> bool" where
  "quiet (Callback None) = True"
| "quiet (Returned r) = True"
| "quiet _ = False"

fun quiet_or_done :: "stream_output \<Rightarrow> bool" where
  "quiet_or_done Emit_done = True"
| "quiet_or_done x = quiet x"

definition abandoned_inv :: "check_stream \<Rightarrow> bool" where
  "abandoned_inv t = (dead t \<and> live_timers t = {} \<and> \<not> onFinish_attached t \<and> stream_inv t)"

text \<open>
  A guard with a budget of three bytes, constructed with \<^verbatim>\<open>inbound: true\<close>, and
  the state it is in after a chunk of four bytes and the deferred completion of
  that chunk's callback.
\<close>

definition example_opts :: check_stream_options where
  "example_opts =
     \<lparr>opt_algorithm = None, opt_maxBytes = 3, opt_timeout = 1000, opt_inbound = True,
      opt_collector = (\<lambda>name. 0)\<rparr>"

definition exceeded_stream :: check_stream where
  "exceeded_stream =
     fst (stream_run [Write [1, 2, 3, 4] ''buffer'', Immediate] (CheckStream example_opts 0))"

section \<open>The throttle: admission, passive mode and rate tracking\<close>

text \<open>
  The constructor accepts the tunables exactly when all four are positive, and the
  throttle then starts with a rate of 0, an empty queue and the counter at 0.
\<close>

lemma createThrottle_valid:
  "(\<exists>self. createThrottle options now = Inr self) \<longleftrightarrow>
     (opt_concurrency options > 0 \<and> opt_requestRateCapacity options > 0 \<and>
      opt_rateCheckInterval options > 0 \<and> opt_queueTolerance options > 0)"
  by (simp add: createThrottle_def)

lemma createThrottle_initial:
  assumes "createThrottle options now = Inr self"
  shows "mostRecentRequestRate self = 0 \<and> requestsPerCheckInterval self = 0 \<and>
         lastCheck self = now \<and> requestQueue self = new_queue (opt_concurrency options) \<and>
         enabled self = opt_enabled options"
  using assms by (auto simp: createThrottle_def split: if_splits)

lemma wait_proceed_fst:
  "fst (wait_proceed now3 req self evs) =
     (if enabled self then self\<lparr>requestQueue := fst (submit (req\<lparr>throttleStartTime := Some now3\<rparr>) (requestQueue self))\<rparr>
      else self)"
  by (simp add: wait_proceed_def Let_def split: prod.splits)

lemma wait_proceed_events:
  "snd (snd (wait_proceed now3 req self evs)) =
     evs @ (if enabled self then
              map Task_started (snd (submit (req\<lparr>throttleStartTime := Some now3\<rparr>) (requestQueue self)))
              @ [Probe_queue_status
                   (length (q_pending (fst (submit (req\<lparr>throttleStartTime := Some now3\<rparr>) (requestQueue self)))))
                   (length (q_running (fst (submit (req\<lparr>throttleStartTime := Some now3\<rparr>) (requestQueue self)))))]
            else [Next None,
                  Probe_queue_status (length (q_pending (requestQueue self)))
                                     (length (q_running (requestQueue self)))])"
  by (simp add: wait_proceed_def Let_def split: prod.splits)

lemma wait_proceed_not_rejected:
  "Next (Some ThrottledError) \<notin> set evs \<Longrightarrow>
   Next (Some ThrottledError) \<notin> set (snd (snd (wait_proceed now3 req self evs)))"
  by (auto simp: wait_proceed_events)

lemma wait_proceed_rate:
  "mostRecentRequestRate (fst (wait_proceed now3 req self evs)) = mostRecentRequestRate self"
  by (simp add: wait_proceed_fst)

lemma wait_admit_rate:
  "mostRecentRequestRate (fst (wait_admit now3 req self evs)) = mostRecentRequestRate self"
  by (simp add: wait_admit_def Let_def wait_proceed_rate)

lemma wait_admit_reject:
  "admission_cond self \<Longrightarrow> enabled self \<Longrightarrow>
   wait_admit now3 req self evs =
     (self, req,
      evs @ [Probe_request_received (req_method req) (req_url req) (queue_length (requestQueue self)),
             Probe_request_throttled (queue_length (requestQueue self))
                (mostRecentRequestRate self) (req_url req) (req_method req),
             Next (Some ThrottledError)])"
  by (simp add: wait_admit_def admission_cond_def Let_def)

lemma wait_admit_not_rejected:
  "\<not> (admission_cond self \<and> enabled self) \<Longrightarrow> Next (Some ThrottledError) \<notin> set evs \<Longrightarrow>
   Next (Some ThrottledError) \<notin> set (snd (snd (wait_admit now3 req self evs)))"
  by (auto simp: wait_admit_def admission_cond_def Let_def wait_proceed_events)

lemma wait_admit_rejected_iff:
  "Next (Some ThrottledError) \<notin> set evs \<Longrightarrow>
   rejected (wait_admit now3 req self evs) \<longleftrightarrow> (admission_cond self \<and> enabled self)"
  unfolding rejected_def
  using wait_admit_not_rejected [of self evs now3 req] wait_admit_reject [of self now3 req evs]
  by auto

lemma computeRequestRate_ok:
  "hrtime_le (lastCheck self) now2 \<Longrightarrow> \<exists>rate self2. computeRequestRate now2 self = (Inr rate, self2)"
  by (simp add: computeRequestRate_def hrtimeDiff_def Let_def)

lemma wait_as_admit:
  assumes "\<not> recompute_due now1 self \<or> hrtime_le (lastCheck self) now2"
  shows "wait now1 now2 now3 req self =
           wait_admit now3 req (rate_update now1 now2 self) (rate_events now1 now2 self)"
proof -
  let ?self1 = "self\<lparr>requestsPerCheckInterval := requestsPerCheckInterval self + 1\<rparr>"
  show ?thesis
  proof (cases "recompute_due now1 self")
    case False
    then show ?thesis
      by (simp add: wait_def rate_update_def rate_events_def recompute_due_def Let_def)
  next
    case True
    with assms have "hrtime_le (lastCheck ?self1) now2" by simp
    from computeRequestRate_ok [OF this]
    obtain rate self2 where "computeRequestRate now2 ?self1 = (Inr rate, self2)" by blast
    with True show ?thesis
      by (simp add: wait_def rate_update_def rate_events_def recompute_due_def Let_def)
  qed
qed

lemma wait_throws:
  assumes "recompute_due now1 self" "\<not> hrtime_le (lastCheck self) now2"
  shows "wait now1 now2 now3 req self =
           (self\<lparr>requestsPerCheckInterval := requestsPerCheckInterval self + 1\<rparr>, req,
            [Throttle_threw (AssertionError ''negative differences not allowed'')])"
  using assms
  by (simp add: wait_def recompute_due_def Let_def computeRequestRate_def hrtimeDiff_def)

lemma rejected_no_throw:
  assumes "rejected (wait now1 now2 now3 req self)"
  shows "\<not> recompute_due now1 self \<or> hrtime_le (lastCheck self) now2"
proof (rule ccontr)
  assume "\<not> ?thesis"
  then have "recompute_due now1 self" "\<not> hrtime_le (lastCheck self) now2" by simp_all
  from wait_throws [OF this] assms show False by (simp add: rejected_def)
qed

lemma rate_events_no_next:
  "Next e \<notin> set (rate_events now1 now2 self)"
  by (cases "recompute_due now1 self") (simp_all add: rate_events_def Let_def split: prod.splits sum.splits)

lemma rate_events_no_task:
  "Task_started w \<notin> set (rate_events now1 now2 self)"
  by (cases "recompute_due now1 self") (simp_all add: rate_events_def Let_def split: prod.splits sum.splits)

lemma rate_events_no_threw:
  "hrtime_le (lastCheck self) now2 \<Longrightarrow> Throttle_threw e \<notin> set (rate_events now1 now2 self)"
  by (cases "recompute_due now1 self")
     (simp_all add: rate_events_def Let_def computeRequestRate_def hrtimeDiff_def)

lemma rate_update_frame:
  "(rate_update now1 now2 self)\<lparr>requestsPerCheckInterval := requestsPerCheckInterval self,
      mostRecentRequestRate := mostRecentRequestRate self, lastCheck := lastCheck self\<rparr> = self"
  by (simp add: rate_update_def Let_def computeRequestRate_def split: prod.splits sum.splits)

lemma rate_update_fields:
  "enabled (rate_update now1 now2 self) = enabled self"
  "requestRateCapacity (rate_update now1 now2 self) = requestRateCapacity self"
  "queueTolerance (rate_update now1 now2 self) = queueTolerance self"
  "requestQueue (rate_update now1 now2 self) = requestQueue self"
  by (simp_all add: rate_update_def Let_def computeRequestRate_def split: prod.splits sum.splits)

lemma wait_rate:
  "hrtime_le (lastCheck self) now2 \<Longrightarrow>
   mostRecentRequestRate (fst (wait now1 now2 now3 req self)) =
   mostRecentRequestRate (rate_update now1 now2 self)"
  by (simp add: wait_as_admit wait_admit_rate)

lemma rate_update_not_due:
  "\<not> recompute_due now1 self \<Longrightarrow>
   rate_update now1 now2 self = self\<lparr>requestsPerCheckInterval := requestsPerCheckInterval self + 1\<rparr>"
  by (simp add: rate_update_def Let_def)

text \<open>
  Claim C1. With a clock that does not run backwards, \<^verbatim>\<open>wait\<close> does not throw, and
  it rejects the request (calls \<^verbatim>\<open>next\<close> with a \<open>ThrottledError\<close>) if and only if
  the cached rate \<open>mostRecentRequestRate\<close> (as the call leaves it) is above
  \<open>requestRateCapacity\<close>, the length of the queue is at least \<open>queueTolerance\<close> and
  \<open>enabled\<close> is true. On rejection the call of \<^verbatim>\<open>next\<close> with the error is the last
  thing it does: \<^verbatim>\<open>next()\<close> is not called, no work item is started and nothing is
  pushed on the queue. A rate at or below the capacity never rejects, whatever the
  queue holds.
\<close>

theorem wait_rejects_iff:
  assumes clock: "hrtime_le (lastCheck self) now2"
  shows "let r = wait now1 now2 now3 req self in
         \<not> threw r \<and>
         (rejected r \<longleftrightarrow>
            (mostRecentRequestRate (fst r) > requestRateCapacity self \<and>
             queue_length (requestQueue self) \<ge> queueTolerance self \<and>
             enabled self)) \<and>
         (rejected r \<longrightarrow>
            last (snd (snd r)) = Next (Some ThrottledError) \<and>
            \<not> proceeded r \<and>
            (\<forall>w. Task_started w \<notin> set (snd (snd r))) \<and>
            requestQueue (fst r) = requestQueue self) \<and>
         (mostRecentRequestRate (fst r) \<le> requestRateCapacity self \<longrightarrow> \<not> rejected r)"
proof -
  let ?u = "rate_update now1 now2 self"
  let ?e = "rate_events now1 now2 self"
  let ?r = "wait now1 now2 now3 req self"
  have w: "?r = wait_admit now3 req ?u ?e" by (rule wait_as_admit) (simp add: clock)
  have rate: "mostRecentRequestRate (fst ?r) = mostRecentRequestRate ?u"
    by (rule wait_rate [OF clock])
  have cond: "admission_cond ?u \<and> enabled ?u \<longleftrightarrow>
     (mostRecentRequestRate (fst ?r) > requestRateCapacity self \<and>
      queue_length (requestQueue self) \<ge> queueTolerance self \<and> enabled self)"
    by (simp add: admission_cond_def rate rate_update_fields)
  have iff: "rejected ?r \<longleftrightarrow> (admission_cond ?u \<and> enabled ?u)"
    unfolding w by (rule wait_admit_rejected_iff) (rule rate_events_no_next)
  have nothrew: "\<not> threw ?r"
  proof -
    have "Throttle_threw e \<notin> set (snd (snd (wait_admit now3 req ?u ?e)))" for e
      using rate_events_no_threw [OF clock, of e now1]
      by (auto simp: wait_admit_def Let_def wait_proceed_events)
    then show ?thesis unfolding w threw_def by blast
  qed
  have rej: "rejected ?r \<longrightarrow>
            last (snd (snd ?r)) = Next (Some ThrottledError) \<and>
            \<not> proceeded ?r \<and>
            (\<forall>w. Task_started w \<notin> set (snd (snd ?r))) \<and>
            requestQueue (fst ?r) = requestQueue self"
  proof
    assume "rejected ?r"
    with iff have c: "admission_cond ?u" "enabled ?u" by simp_all
    show "last (snd (snd ?r)) = Next (Some ThrottledError) \<and>
            \<not> proceeded ?r \<and>
            (\<forall>w. Task_started w \<notin> set (snd (snd ?r))) \<and>
            requestQueue (fst ?r) = requestQueue self"
      unfolding w wait_admit_reject [OF c] proceeded_def
      using rate_events_no_next [of None now1 now2 self] rate_events_no_task [of _ now1 now2 self]
      by (simp add: rate_update_fields)
  qed
  show ?thesis
    unfolding Let_def using nothrew iff cond rej by auto
qed

lemma wait_admit_passive:
  assumes "\<not> enabled self"
  shows "wait_admit now3 req self evs =
     (self, req\<lparr>throttleStartTime := Some now3\<rparr>,
      evs @ [Probe_request_received (req_method req) (req_url req) (queue_length (requestQueue self))]
          @ (if admission_cond self then [throttle_probe req self] else [])
          @ [Next None,
             Probe_queue_status (length (q_pending (requestQueue self)))
                                (length (q_running (requestQueue self)))])"
  using assms
  by (simp add: wait_admit_def wait_proceed_def admission_cond_def throttle_probe_def Let_def)

lemma wait_admit_active_probe:
  assumes "enabled self" "admission_cond self"
  shows "throttle_probe req self \<in> set (snd (snd (wait_admit now3 req self evs)))"
  using assms by (simp add: wait_admit_reject throttle_probe_def)

lemma rate_update_enabled_irrelevant:
  "rate_update now1 now2 (self\<lparr>enabled := b\<rparr>) = (rate_update now1 now2 self)\<lparr>enabled := b\<rparr>"
  by (cases "recompute_due now1 self")
     (simp_all add: rate_update_def recompute_due_def Let_def computeRequestRate_def split: sum.splits)

lemma rate_events_probe:
  "Probe_request_throttled a b c d \<notin> set (rate_events now1 now2 self)"
  by (cases "recompute_due now1 self") (simp_all add: rate_events_def Let_def split: prod.splits sum.splits)

text \<open>
  Claim C4. With \<open>enabled = false\<close> (and a clock that does not run backwards)
  \<^verbatim>\<open>wait\<close> neither rejects nor queues: \<^verbatim>\<open>next()\<close> is called exactly once, inside
  the call and without an error, the queue is left as it was and no work item is
  started by it. The \<^verbatim>\<open>request_throttled\<close> probe fires exactly when the rate is
  above the capacity and the queue length is at least the tolerance, and it is the
  probe, with the same arguments, that the enabled throttle fires on the same input.
\<close>

theorem wait_passive_mode:
  assumes off: "\<not> enabled self"
    and clock: "hrtime_le (lastCheck self) now2"
  shows "let r = wait now1 now2 now3 req self; evs = snd (snd r) in
         \<not> rejected r \<and> \<not> threw r \<and>
         (\<forall>e. Next (Some e) \<notin> set evs) \<and>
         length (filter (\<lambda>e. e = Next None) evs) = 1 \<and>
         (\<forall>w. Task_started w \<notin> set evs) \<and>
         requestQueue (fst r) = requestQueue self \<and>
         ((mostRecentRequestRate (fst r) > requestRateCapacity self \<and>
           queue_length (requestQueue self) \<ge> queueTolerance self) \<longleftrightarrow>
            throttle_probe req (fst r) \<in> set evs) \<and>
         ((mostRecentRequestRate (fst r) > requestRateCapacity self \<and>
           queue_length (requestQueue self) \<ge> queueTolerance self) \<longrightarrow>
            throttle_probe req (fst r)
              \<in> set (snd (snd (wait now1 now2 now3 req (self\<lparr>enabled := True\<rparr>)))))"
proof -
  let ?u = "rate_update now1 now2 self"
  let ?e = "rate_events now1 now2 self"
  let ?r = "wait now1 now2 now3 req self"
  have w: "?r = wait_admit now3 req ?u ?e" by (rule wait_as_admit) (simp add: clock)
  have pu: "\<not> enabled ?u" using off by (simp add: rate_update_fields)
  note r = w [unfolded wait_admit_passive [OF pu]]
  have cond: "admission_cond ?u \<longleftrightarrow>
     (mostRecentRequestRate ?u > requestRateCapacity self \<and>
      queue_length (requestQueue self) \<ge> queueTolerance self)"
    by (simp add: admission_cond_def rate_update_fields)
  have ev: "Next x \<notin> set ?e" "Task_started y \<notin> set ?e" "Throttle_threw z \<notin> set ?e"
    "throttle_probe req ?u \<notin> set ?e" for x y z
    using rate_events_no_next rate_events_no_task rate_events_no_threw [OF clock]
      rate_events_probe by (simp_all add: throttle_probe_def)
  have flt: "filter (\<lambda>e. e = Next None) ?e = []"
    using ev(1) by (auto simp: filter_empty_conv)
  have active: "admission_cond ?u \<longrightarrow>
     throttle_probe req ?u \<in> set (snd (snd (wait now1 now2 now3 req (self\<lparr>enabled := True\<rparr>))))"
  proof
    assume c: "admission_cond ?u"
    let ?v = "rate_update now1 now2 (self\<lparr>enabled := True\<rparr>)"
    have v: "?v = ?u\<lparr>enabled := True\<rparr>" by (rule rate_update_enabled_irrelevant)
    have c': "admission_cond ?v" "enabled ?v" using c by (simp_all add: v admission_cond_def)
    have "wait now1 now2 now3 req (self\<lparr>enabled := True\<rparr>)
            = wait_admit now3 req ?v (rate_events now1 now2 (self\<lparr>enabled := True\<rparr>))"
      by (rule wait_as_admit) (simp add: clock)
    moreover have "throttle_probe req ?v = throttle_probe req ?u"
      by (simp add: v throttle_probe_def)
    ultimately show "throttle_probe req ?u \<in> set (snd (snd (wait now1 now2 now3 req (self\<lparr>enabled := True\<rparr>))))"
      using wait_admit_active_probe [OF c'(2) c'(1), of req now3] by simp
  qed
  show ?thesis
    unfolding Let_def rejected_def threw_def
    using ev flt active cond
    by (simp add: r throttle_probe_def rate_update_fields)
qed

text \<open>
  Claim C10. A call of \<^verbatim>\<open>wait\<close> that rejects (the throttle is then enabled)
  changes nothing of the throttle but \<open>requestsPerCheckInterval\<close>,
  \<open>mostRecentRequestRate\<close> and \<open>lastCheck\<close>, and only the counter when no
  recomputation was due; the queue is untouched, no work item starts, and the request
  is returned as it came, so a request without a start timestamp still has none and
  \<^verbatim>\<open>computeRequestLatency\<close> fails its assertion on it.
\<close>

theorem rejected_wait_frame:
  assumes rej: "rejected (wait now1 now2 now3 req self)"
  shows "let r = wait now1 now2 now3 req self in
         enabled self \<and>
         (fst r)\<lparr>requestsPerCheckInterval := requestsPerCheckInterval self,
                 mostRecentRequestRate := mostRecentRequestRate self,
                 lastCheck := lastCheck self\<rparr> = self \<and>
         (\<not> recompute_due now1 self \<longrightarrow>
            fst r = self\<lparr>requestsPerCheckInterval := requestsPerCheckInterval self + 1\<rparr>) \<and>
         requestQueue (fst r) = requestQueue self \<and>
         (\<forall>w. Task_started w \<notin> set (snd (snd r))) \<and>
         fst (snd r) = req \<and>
         (throttleStartTime req = None \<longrightarrow>
            computeRequestLatency now (Some (fst (snd r)))
              = Inl (AssertionError ''throttle start time missing''))"
proof -
  let ?u = "rate_update now1 now2 self"
  let ?e = "rate_events now1 now2 self"
  let ?r = "wait now1 now2 now3 req self"
  have w: "?r = wait_admit now3 req ?u ?e"
    by (rule wait_as_admit) (rule rejected_no_throw [OF rej])
  from rej have c: "admission_cond ?u" "enabled ?u"
    unfolding w using wait_admit_rejected_iff [OF rate_events_no_next, of now3 req ?u now1 now2 self]
    by simp_all
  note r = w [unfolded wait_admit_reject [OF c]]
  have lat: "throttleStartTime req = None \<longrightarrow>
      computeRequestLatency now (Some req) = Inl (AssertionError ''throttle start time missing'')"
    by (simp add: computeRequestLatency_def)
  show ?thesis
    unfolding Let_def
    using c(2) rate_events_no_task [of _ now1 now2 self] lat
    by (simp add: r rate_update_frame rate_update_fields rate_update_not_due)
qed

lemma busy_wait:
  "wait (5, 500000000) (5, 500000000) (5, 500000000) example_request (busy_throttle True)
     = ((busy_throttle True)\<lparr>requestsPerCheckInterval := 10\<rparr>, example_request,
        [Probe_request_received ''GET'' ''/poseidon/stor/obj'' 2,
         Probe_request_throttled 2 20 ''/poseidon/stor/obj'' ''GET'',
         Next (Some ThrottledError)])"
  by (simp add: wait_def wait_admit_def process_hrtime_def hrtime_sub_def busy_throttle_def
      example_request_def queue_length_def Let_def)

theorem wait_rejects_iff_witness:
  "hrtime_le (lastCheck (busy_throttle True)) (5, 500000000) \<and>
   rejected (wait (5, 500000000) (5, 500000000) (5, 500000000) example_request (busy_throttle True)) \<and>
   requestQueue (fst (wait (5, 500000000) (5, 500000000) (5, 500000000) example_request
      (busy_throttle True))) = requestQueue (busy_throttle True)"
proof -
  have h: "hrtime_le (lastCheck (busy_throttle True)) (5, 500000000)"
    by (simp add: hrtime_le_def busy_throttle_def)
  have c: "mostRecentRequestRate (fst (wait (5, 500000000) (5, 500000000) (5, 500000000)
        example_request (busy_throttle True))) > requestRateCapacity (busy_throttle True) \<and>
      queue_length (requestQueue (busy_throttle True)) \<ge> queueTolerance (busy_throttle True) \<and>
      enabled (busy_throttle True)"
    by (simp add: busy_wait) (simp add: busy_throttle_def queue_length_def)
  from wait_rejects_iff [OF h, of "(5, 500000000)" "(5, 500000000)" example_request] c h
  show ?thesis by (simp add: Let_def)
qed

lemma passive_wait:
  "wait (5, 500000000) (5, 500000000) (5, 500000000) example_request (busy_throttle False)
     = ((busy_throttle False)\<lparr>requestsPerCheckInterval := 10\<rparr>,
        example_request\<lparr>throttleStartTime := Some (5, 500000000)\<rparr>,
        [Probe_request_received ''GET'' ''/poseidon/stor/obj'' 2,
         Probe_request_throttled 2 20 ''/poseidon/stor/obj'' ''GET'',
         Next None,
         Probe_queue_status 1 1])"
  by (simp add: wait_def wait_admit_def wait_proceed_def process_hrtime_def hrtime_sub_def
      busy_throttle_def example_request_def queue_length_def Let_def)

theorem wait_passive_mode_witness:
  "\<not> enabled (busy_throttle False) \<and>
   hrtime_le (lastCheck (busy_throttle False)) (5, 500000000) \<and>
   proceeded (wait (5, 500000000) (5, 500000000) (5, 500000000) example_request (busy_throttle False)) \<and>
   \<not> rejected (wait (5, 500000000) (5, 500000000) (5, 500000000) example_request (busy_throttle False)) \<and>
   Probe_request_throttled 2 20 ''/poseidon/stor/obj'' ''GET''
     \<in> set (snd (snd (wait (5, 500000000) (5, 500000000) (5, 500000000) example_request
          (busy_throttle False))))"
proof -
  have off: "\<not> enabled (busy_throttle False)" by (simp add: busy_throttle_def)
  have h: "hrtime_le (lastCheck (busy_throttle False)) (5, 500000000)"
    by (simp add: hrtime_le_def busy_throttle_def)
  from wait_passive_mode [OF off h, of "(5, 500000000)" "(5, 500000000)" example_request] off h
  show ?thesis
    by (simp add: Let_def passive_wait proceeded_def)
qed

theorem rejected_wait_frame_witness:
  "rejected (wait (5, 500000000) (5, 500000000) (5, 500000000) example_request (busy_throttle True)) \<and>
   throttleStartTime (fst (snd (wait (5, 500000000) (5, 500000000) (5, 500000000) example_request
      (busy_throttle True)))) = None \<and>
   computeRequestLatency (6, 0)
     (Some (fst (snd (wait (5, 500000000) (5, 500000000) (5, 500000000) example_request
        (busy_throttle True)))))
     = Inl (AssertionError ''throttle start time missing'')"
proof -
  have rej: "rejected (wait (5, 500000000) (5, 500000000) (5, 500000000) example_request
      (busy_throttle True))"
    by (simp add: busy_wait rejected_def)
  have n: "throttleStartTime example_request = None" by (simp add: example_request_def)
  from rejected_wait_frame [OF rej, of "(6, 0)"] rej n
  show ?thesis by (auto simp: Let_def)
qed

text \<open>
  With an interval of one second or more the rate is never recomputed: the
  nanosecond component of a time difference stays below one second.
\<close>

lemma recompute_never_due:
  assumes "hrtime_wf now1" "hrtime_wf (lastCheck self)" "rateCheckInterval self \<ge> 1"
  shows "\<not> recompute_due now1 self"
proof -
  have "snd (process_hrtime now1 (lastCheck self)) < 1000000000"
    using assms(1,2) by (auto simp: process_hrtime_def hrtime_sub_def hrtime_wf_def)
  then have "real_of_int (snd (process_hrtime now1 (lastCheck self))) < 10 ^ 9"
    by simp
  then have "real_of_int (snd (process_hrtime now1 (lastCheck self))) / 10 ^ 9 < 1"
    by simp
  with assms(3) show ?thesis by (simp add: recompute_due_def)
qed

text \<open>
  Claim C2, evaluated on the code. The throttle last checked at time 0, the call
  arrives 5.5 seconds later and \<open>rateCheckInterval\<close> is 1 second: the elapsed time
  exceeds the interval, yet nothing is recomputed (only the counter moves), because
  the test reads the nanosecond component alone. With an interval of a quarter of a
  second the rate is recomputed, as 10 requests over 0.5 seconds (20 per second)
  and not over the 5.5 seconds that elapsed.
\<close>

theorem rate_check_uses_nanoseconds_only:
  "hrtime_seconds (hrtime_sub (5, 500000000) (lastCheck (busy_throttle True)))
      > rateCheckInterval (busy_throttle True) \<and>
   fst (wait (5, 500000000) (5, 500000000) (5, 500000000) example_request (busy_throttle True))
      = (busy_throttle True)\<lparr>requestsPerCheckInterval := 10\<rparr> \<and>
   hrtime_seconds (hrtime_sub (5, 500000000) (lastCheck (busy_throttle True))) = 11 / 2 \<and>
   fst (wait (5, 500000000) (5, 500000000) (5, 500000000) example_request
          ((busy_throttle True)\<lparr>rateCheckInterval := 1 / 4\<rparr>))
      = (busy_throttle True)\<lparr>rateCheckInterval := 1 / 4, lastCheck := (5, 500000000),
           mostRecentRequestRate := 20, requestsPerCheckInterval := 0\<rparr>"
  by (simp add: wait_def wait_admit_def process_hrtime_def hrtime_sub_def busy_throttle_def
      example_request_def queue_length_def Let_def hrtime_seconds_def computeRequestRate_def
      hrtimeDiff_def hrtime_le_def)

section \<open>The admission queue: bounded concurrency and FIFO order\<close>

lemma queue_inv_new: "queue_inv (new_queue c)"
  by (simp add: queue_inv_def new_queue_def)

lemma length_remove1_mem: "w \<in> set xs \<Longrightarrow> Suc (length (remove1 w xs)) = length xs"
  by (induction xs) auto

lemma queue_step_inv:
  assumes "queue_inv q"
  shows "queue_inv (fst (queue_step x q))"
    and "q_concurrency (fst (queue_step x q)) = q_concurrency q"
    and "snd (queue_step x q) @ q_pending (fst (queue_step x q)) = q_pending q @ submitted [x]"
proof -
  show "queue_inv (fst (queue_step x q))"
  proof (cases x)
    case (Submit w)
    with assms show ?thesis by (auto simp: queue_inv_def submit_def)
  next
    case (Complete w)
    with assms show ?thesis
      using length_remove1_mem [of w "q_running q"]
      by (auto simp: queue_inv_def complete_def split: list.splits)
  qed
  show "q_concurrency (fst (queue_step x q)) = q_concurrency q"
    by (cases x) (auto simp: submit_def complete_def split: list.splits)
  show "snd (queue_step x q) @ q_pending (fst (queue_step x q)) = q_pending q @ submitted [x]"
  proof (cases x)
    case (Submit w)
    with assms show ?thesis by (auto simp: queue_inv_def submit_def)
  next
    case (Complete w)
    then show ?thesis by (auto simp: complete_def split: list.splits)
  qed
qed

lemma submitted_append: "submitted (xs @ ys) = submitted xs @ submitted ys"
  by (induction xs rule: submitted.induct) auto

lemma queue_run_inv:
  assumes "queue_inv q"
  shows "queue_inv (fst (queue_run ops q)) \<and>
         q_concurrency (fst (queue_run ops q)) = q_concurrency q \<and>
         snd (queue_run ops q) @ q_pending (fst (queue_run ops q)) = q_pending q @ submitted ops"
  using assms
proof (induction ops arbitrary: q)
  case Nil
  then show ?case by simp
next
  case (Cons x xs)
  obtain q1 s1 where st: "queue_step x q = (q1, s1)" by (cases "queue_step x q")
  obtain q2 s2 where rn: "queue_run xs q1 = (q2, s2)" by (cases "queue_run xs q1")
  from queue_step_inv [OF Cons.prems, of x] st
  have i1: "queue_inv q1" and c1: "q_concurrency q1 = q_concurrency q"
    and f1: "s1 @ q_pending q1 = q_pending q @ submitted [x]" by simp_all
  from Cons.IH [OF i1] rn
  have i2: "queue_inv q2" and c2: "q_concurrency q2 = q_concurrency q1"
    and f2: "s2 @ q_pending q2 = q_pending q1 @ submitted xs" by simp_all
  have "(s1 @ s2) @ q_pending q2 = q_pending q @ submitted (x # xs)"
    using f1 f2 submitted_append [of "[x]" xs] by simp
  with i2 c1 c2 show ?case by (simp add: st rn)
qed

text \<open>
  Claim C3. After any sequence of submissions and completions, started on the empty
  queue, at most \<open>concurrency\<close> items are running, and the items started so far
  followed by the items still pending are the submitted items in the order of their
  submission: items start in FIFO order, whatever the size of a burst. In every
  such state, the completion of a running item while items are pending takes the
  oldest pending item off the queue and starts it, and the bound still holds.
\<close>

theorem admission_queue_bounded_fifo:
  "let r = queue_run ops (new_queue c); q = fst r in
     length (q_running q) \<le> c \<and>
     snd r @ q_pending q = submitted ops \<and>
     (\<forall>w p ps. w \<in> set (q_running q) \<and> q_pending q = p # ps \<longrightarrow>
        complete w q = (q\<lparr>q_running := remove1 w (q_running q) @ [p], q_pending := ps\<rparr>, [p]) \<and>
        length (q_running (fst (complete w q))) \<le> c)"
proof -
  let ?q = "fst (queue_run ops (new_queue c))"
  from queue_run_inv [OF queue_inv_new, of ops c]
  have i: "queue_inv ?q" and c: "q_concurrency ?q = c"
    and f: "snd (queue_run ops (new_queue c)) @ q_pending ?q = submitted ops"
    by (simp_all add: new_queue_def)
  from i c have b: "length (q_running ?q) \<le> c" by (simp add: queue_inv_def)
  have s: "complete w ?q = (?q\<lparr>q_running := remove1 w (q_running ?q) @ [p], q_pending := ps\<rparr>, [p]) \<and>
        length (q_running (fst (complete w ?q))) \<le> c"
    if "w \<in> set (q_running ?q)" "q_pending ?q = p # ps" for w p ps
    using that b length_remove1_mem [OF that(1)] by (simp add: complete_def)
  show ?thesis unfolding Let_def using b f s by blast
qed

theorem admission_queue_bounded_fifo_witness:
  "(let r = queue_run [Submit (1::nat), Submit 2, Submit 3, Submit 4, Submit 5, Complete 2] (new_queue 2)
    in q_running (fst r) = [1, 3] \<and> q_pending (fst r) = [4, 5] \<and> snd r = [1, 2, 3]) \<and>
   complete (3::nat) (fst (queue_run [Submit 1, Submit 2, Submit 3, Submit 4, Submit 5, Complete 2] (new_queue 2)))
     = (\<lparr>q_concurrency = 2, q_pending = [5], q_running = [1, 4]\<rparr>, [4])"
proof -
  let ?ops = "[Submit (1::nat), Submit 2, Submit 3, Submit 4, Submit 5, Complete 2]"
  let ?q = "\<lparr>q_concurrency = 2, q_pending = [4, 5], q_running = [1, 3::nat]\<rparr>"
  have e: "queue_run ?ops (new_queue 2) = (?q, [1, 2, 3])"
    by (simp add: new_queue_def submit_def complete_def)
  note t = admission_queue_bounded_fifo [of ?ops 2, unfolded Let_def e fst_conv snd_conv]
  then have "3 \<in> set (q_running ?q) \<and> q_pending ?q = 4 # [5] \<longrightarrow>
      complete 3 ?q = (?q\<lparr>q_running := remove1 3 (q_running ?q) @ [4], q_pending := [5]\<rparr>, [4])"
    by blast
  then have "complete 3 ?q = (\<lparr>q_concurrency = 2, q_pending = [5], q_running = [1, 4]\<rparr>, [4])"
    by simp
  then show ?thesis unfolding Let_def e by simp
qed

section \<open>The stream guard: byte budget, abandoning and the digest\<close>

lemma write_chunk_dead: "dead s \<Longrightarrow> write_chunk c e s = (s, [Callback None])"
  by (simp add: write_chunk_def)

lemma write_chunk_below:
  assumes "\<not> dead s" "h_digest_calls (hash s) = 0" "int (bytes s + length c) \<le> maxBytes s"
  shows "write_chunk c e s =
    (s\<lparr>hash := (hash s)\<lparr>h_data := h_data (hash s) @ c\<rparr>,
       bytes := bytes s + length c,
       collector := (collector s)(counter s := collector s (counter s) + length c),
       live_timers := insert (next_timer s) (live_timers s - {timer s}),
       next_timer := next_timer s + 1,
       timer := next_timer s\<rparr>, [Callback None])"
  using assms
  by (simp add: write_chunk_def crypto_update_def clearTimeout_def setTimeout_def Let_def)

lemma write_chunk_above:
  assumes "\<not> dead s" "h_digest_calls (hash s) = 0" "int (bytes s + length c) > maxBytes s"
  shows "write_chunk c e s =
    (s\<lparr>hash := (hash s)\<lparr>h_data := h_data (hash s) @ c\<rparr>,
       bytes := bytes s + length c,
       collector := (collector s)(counter s := collector s (counter s) + length c),
       live_timers := live_timers s - {timer s},
       immediates := immediates s @ [Imm_write_cb]\<rparr>,
     [Emit_length_exceeded (bytes s + length c)])"
  using assms
  by (simp add: write_chunk_def crypto_update_def clearTimeout_def setTimeout_def Let_def)

lemma write_all_Nil: "write_all [] e s = (s, [])"
  by (simp add: write_all_def)

lemma write_all_Cons:
  "write_all (c # cs) e s =
     (let (s1, o1) = write_chunk c e s; (s2, o2) = write_all cs e s1 in (s2, o1 @ o2))"
  by (simp add: write_all_def)


















lemma stream_inv_new: "stream_inv (CheckStream opts now)"
  by (simp add: stream_inv_def CheckStream_def createHash_def Let_def)

lemma write_chunk_inv: "stream_inv s \<Longrightarrow> stream_inv (fst (write_chunk c e s))"
  by (auto simp: stream_inv_def write_chunk_def crypto_update_def clearTimeout_def
      setTimeout_def Let_def split: option.splits)

lemma abandon_inv: "stream_inv s \<Longrightarrow> stream_inv (abandon s)"
  by (auto simp: stream_inv_def abandon_def clearTimeout_def Let_def)

lemma digest_inv: "stream_inv s \<Longrightarrow> stream_inv (fst (digest enc s))"
  by (auto simp: stream_inv_def digest_def crypto_digest_def clearTimeout_def Let_def
      split: option.splits)

lemma timer_fires_inv: "stream_inv s \<Longrightarrow> stream_inv (fst (timer_fires h s))"
  by (auto simp: stream_inv_def timer_fires_def)

lemma emit_finish_inv: "stream_inv s \<Longrightarrow> stream_inv (fst (emit_finish s))"
  by (auto simp: stream_inv_def emit_finish_def)

lemma run_immediate_inv: "stream_inv s \<Longrightarrow> stream_inv (fst (run_immediate s))"
  by (auto simp: stream_inv_def run_immediate_def onFinish_immediate_def write_immediate_def
      crypto_digest_def split: list.splits immediate.splits option.splits)

lemma add_listener_inv: "stream_inv s \<Longrightarrow> stream_inv (add_listener ev s)"
  by (simp add: stream_inv_def add_listener_def)

lemma stream_step_inv: "stream_inv s \<Longrightarrow> stream_inv (fst (stream_step x s))"
  by (cases x)
     (simp_all add: write_chunk_inv abandon_inv digest_inv timer_fires_inv emit_finish_inv
        run_immediate_inv add_listener_inv)

lemma stream_run_Cons:
  "fst (stream_run (x # xs) s) = fst (stream_run xs (fst (stream_step x s)))"
  "snd (stream_run (x # xs) s) = snd (stream_step x s) @ snd (stream_run xs (fst (stream_step x s)))"
  by (simp_all add: Let_def case_prod_beta)

lemma stream_run_inv: "stream_inv s \<Longrightarrow> stream_inv (fst (stream_run ops s))"
proof (induction ops arbitrary: s)
  case Nil
  then show ?case by simp
next
  case (Cons x xs)
  from Cons.IH [OF stream_step_inv [OF Cons.prems, of x]]
  show ?case by (simp only: stream_run_Cons)
qed

lemma reachable_inv: "stream_inv (fst (stream_run ops (CheckStream opts now)))"
  by (rule stream_run_inv [OF stream_inv_new])

lemma abandon_abandoned: "stream_inv s \<Longrightarrow> abandoned_inv (abandon s)"
  by (auto simp: abandoned_inv_def stream_inv_def abandon_def clearTimeout_def Let_def)

lemma abandon_idem: "abandon (abandon s) = abandon s"
  by (simp add: abandon_def clearTimeout_def Let_def)

lemma abandoned_step:
  assumes "abandoned_inv t"
  shows "abandoned_inv (fst (stream_step x t))"
    and "list_all quiet_or_done (snd (stream_step x t))"
    and "Imm_done \<notin> set (immediates t) \<Longrightarrow>
           Imm_done \<notin> set (immediates (fst (stream_step x t))) \<and>
           list_all quiet (snd (stream_step x t))"
proof -
  from assms have d: "dead t" and l: "live_timers t = {}" and f: "\<not> onFinish_attached t"
    and i: "stream_inv t" by (simp_all add: abandoned_inv_def)
  have i': "stream_inv (fst (stream_step x t))" by (rule stream_step_inv [OF i])
  have rest: "dead (fst (stream_step x t)) \<and> live_timers (fst (stream_step x t)) = {} \<and>
      \<not> onFinish_attached (fst (stream_step x t))"
    using d l f
    by (cases x)
       (auto simp: write_chunk_dead abandon_def clearTimeout_def digest_def crypto_digest_def
          timer_fires_def emit_finish_def run_immediate_def onFinish_immediate_def
          write_immediate_def add_listener_def Let_def
          split: option.splits list.splits immediate.splits)
  with i' show "abandoned_inv (fst (stream_step x t))" by (simp add: abandoned_inv_def)
  from i have c: "h_digest_calls (hash t) = (case digest_cache t of None \<Rightarrow> 0 | Some d \<Rightarrow> 1)"
    by (simp add: stream_inv_def)
  show "list_all quiet_or_done (snd (stream_step x t))"
    using d l f c
    by (cases x)
       (auto simp: write_chunk_dead clearTimeout_def digest_def crypto_digest_def
          timer_fires_def emit_finish_def run_immediate_def onFinish_immediate_def
          write_immediate_def Let_def
          split: option.splits list.splits immediate.splits)
  show "Imm_done \<notin> set (immediates (fst (stream_step x t))) \<and>
           list_all quiet (snd (stream_step x t))"
    if "Imm_done \<notin> set (immediates t)"
    using d l f c that
    by (cases x)
       (auto simp: write_chunk_dead abandon_def clearTimeout_def digest_def crypto_digest_def
          timer_fires_def emit_finish_def run_immediate_def onFinish_immediate_def
          write_immediate_def add_listener_def Let_def
          split: option.splits list.splits immediate.splits)
qed

lemma abandoned_run:
  assumes "abandoned_inv t"
  shows "abandoned_inv (fst (stream_run ops t)) \<and>
         list_all quiet_or_done (snd (stream_run ops t)) \<and>
         (Imm_done \<notin> set (immediates t) \<longrightarrow> list_all quiet (snd (stream_run ops t)))"
  using assms
proof (induction ops arbitrary: t)
  case Nil
  then show ?case by simp
next
  case (Cons x xs)
  note st = abandoned_step [OF Cons.prems, of x]
  from Cons.IH [OF st(1)] st(2,3)
  show ?case by (simp add: stream_run_Cons del: stream_run.simps)
qed

text \<open>
  What \<^verbatim>\<open>abandon\<close> does achieve, in every state a guard can reach: it is
  idempotent and leaves no timer armed; whatever happens afterwards, no timer is
  armed again, nothing throws, no \<^verbatim>\<open>timeout\<close> and no \<^verbatim>\<open>length_exceeded\<close> is
  emitted and no callback completes with an error; a chunk delivered afterwards
  changes nothing and completes without an error; and \<^verbatim>\<open>done\<close> is not emitted
  either, unless a deferred function of \<^verbatim>\<open>onFinish\<close> was pending at the time of
  \<^verbatim>\<open>abandon\<close>.
\<close>

theorem abandon_silences:
  "let s = fst (stream_run before (CheckStream opts now));
       r = stream_run after (abandon s) in
     abandon (abandon s) = abandon s \<and>
     live_timers (abandon s) = {} \<and>
     live_timers (fst r) = {} \<and>
     list_all quiet_or_done (snd r) \<and>
     (Imm_done \<notin> set (immediates s) \<longrightarrow> list_all quiet (snd r)) \<and>
     write_chunk c e (fst r) = (fst r, [Callback None])"
proof -
  let ?s = "fst (stream_run before (CheckStream opts now))"
  let ?r = "stream_run after (abandon ?s)"
  have a: "abandoned_inv (abandon ?s)" by (rule abandon_abandoned [OF reachable_inv])
  have im: "immediates (abandon ?s) = immediates ?s"
    by (simp add: abandon_def clearTimeout_def Let_def)
  from abandoned_run [OF a, of after]
  have r: "abandoned_inv (fst ?r)" "list_all quiet_or_done (snd ?r)"
    "Imm_done \<notin> set (immediates ?s) \<longrightarrow> list_all quiet (snd ?r)"
    by (simp_all add: im)
  from a r(1) have "live_timers (abandon ?s) = {}" "live_timers (fst ?r) = {}" "dead (fst ?r)"
    by (simp_all add: abandoned_inv_def)
  with r show ?thesis
    unfolding Let_def by (simp add: abandon_idem write_chunk_dead)
qed

lemma cache_step_mono:
  "digest_cache s = Some d \<Longrightarrow> digest_cache (fst (stream_step x s)) = Some d"
  by (cases x)
     (auto simp: write_chunk_def crypto_update_def setTimeout_def abandon_def clearTimeout_def
        digest_def timer_fires_def emit_finish_def run_immediate_def onFinish_immediate_def
        write_immediate_def add_listener_def Let_def
        split: option.splits list.splits immediate.splits sum.splits)

lemma done_step_cache:
  assumes "stream_inv s" "Emit_done \<in> set (snd (stream_step x s))"
  shows "digest_cache (fst (stream_step x s)) \<noteq> None"
proof (cases x)
  case Immediate
  with assms show ?thesis
    by (auto simp: stream_inv_def run_immediate_def onFinish_immediate_def write_immediate_def
        crypto_digest_def split: list.splits immediate.splits option.splits)
next
  case (Write c e)
  with assms(2) show ?thesis
    by (auto simp: write_chunk_def crypto_update_def setTimeout_def Let_def split: if_splits)
next
  case (Digest enc)
  with assms(2) show ?thesis
    by (auto simp: digest_def crypto_digest_def Let_def split: option.splits if_splits)
qed (use assms(2) in \<open>auto simp: timer_fires_def emit_finish_def split: if_splits\<close>)

lemma cache_run_mono:
  "digest_cache s \<noteq> None \<Longrightarrow> digest_cache (fst (stream_run ops s)) \<noteq> None"
proof (induction ops arbitrary: s)
  case Nil
  then show ?case by simp
next
  case (Cons x xs)
  from Cons.prems obtain d where "digest_cache s = Some d" by blast
  from cache_step_mono [OF this, of x] have "digest_cache (fst (stream_step x s)) \<noteq> None" by simp
  from Cons.IH [OF this] show ?case by (simp add: stream_run_Cons del: stream_run.simps)
qed

lemma done_run_cache:
  assumes "stream_inv s" "Emit_done \<in> set (snd (stream_run ops s))"
  shows "digest_cache (fst (stream_run ops s)) \<noteq> None"
  using assms
proof (induction ops arbitrary: s)
  case Nil
  then show ?case by simp
next
  case (Cons x xs)
  let ?s1 = "fst (stream_step x s)"
  from Cons.prems(2)
  consider "Emit_done \<in> set (snd (stream_step x s))" | "Emit_done \<in> set (snd (stream_run xs ?s1))"
    by (auto simp only: stream_run_Cons set_append)
  then show ?case
  proof cases
    case 1
    from cache_run_mono [OF done_step_cache [OF Cons.prems(1) 1], of xs]
    show ?thesis by (simp add: stream_run_Cons del: stream_run.simps)
  next
    case 2
    from Cons.IH [OF stream_step_inv [OF Cons.prems(1)] 2]
    show ?thesis by (simp add: stream_run_Cons del: stream_run.simps)
  qed
qed

lemma digest_cached:
  "digest_cache s = Some d \<Longrightarrow>
   digest enc s = (clearTimeout (timer s) s, [Returned (digest_return enc d)])"
  by (simp add: digest_def clearTimeout_def Let_def)

lemma digest_fresh:
  assumes "digest_cache s = None" "h_digest_calls (hash s) = 0"
  shows "digest enc s =
     ((clearTimeout (timer s) s)\<lparr>hash := (hash s)\<lparr>h_digest_calls := 1\<rparr>,
         digest_cache := Some (Digest_of (h_algorithm (hash s)) (h_data (hash s)))\<rparr>,
      [Returned (digest_return enc (Digest_of (h_algorithm (hash s)) (h_data (hash s))))])"
  using assms by (simp add: digest_def crypto_digest_def clearTimeout_def Let_def)

lemma digest_twice:
  assumes "stream_inv s"
  shows "\<exists>v. snd (digest enc s) = [Returned v] \<and>
             snd (digest enc (fst (digest enc s))) = [Returned v] \<and>
             h_digest_calls (hash (fst (digest enc (fst (digest enc s))))) = 1 \<and>
             (digest_cache s \<noteq> None \<longrightarrow>
                h_digest_calls (hash s) = 1 \<and>
                hash (fst (digest enc (fst (digest enc s)))) = hash s)"
proof (cases "digest_cache s")
  case None
  with assms have c: "h_digest_calls (hash s) = 0" by (simp add: stream_inv_def)
  note d1 = digest_fresh [OF None c, of enc]
  have "digest_cache (fst (digest enc s))
          = Some (Digest_of (h_algorithm (hash s)) (h_data (hash s)))"
    by (simp add: d1)
  note d2 = digest_cached [OF this, of enc]
  show ?thesis using None by (simp add: d2) (simp add: d1 clearTimeout_def)
next
  case (Some d)
  with assms have c: "h_digest_calls (hash s) = 1" by (simp add: stream_inv_def)
  note d1 = digest_cached [OF Some, of enc]
  have "digest_cache (fst (digest enc s)) = Some d" by (simp add: d1 Some clearTimeout_def)
  note d2 = digest_cached [OF this, of enc]
  show ?thesis using Some c by (simp add: d2) (simp add: d1 clearTimeout_def)
qed

text \<open>
  Claim C9. In every state a guard can reach, two calls of \<^verbatim>\<open>digest\<close> with the same
  encoding return the same value, and the hash object has then been finalized
  exactly once (never more than once in any state); when the stream has completed
  (\<^verbatim>\<open>done\<close> was emitted) it had been finalized once before the calls, and they
  leave the hash object as it was.
\<close>

theorem digest_idempotent:
  "let r = stream_run ops (CheckStream opts now); s = fst r;
       d1 = digest enc s; d2 = digest enc (fst d1) in
     (\<exists>v. snd d1 = [Returned v] \<and> snd d2 = [Returned v]) \<and>
     h_digest_calls (hash (fst d2)) = 1 \<and>
     h_digest_calls (hash s) \<le> 1 \<and>
     (Emit_done \<in> set (snd r) \<longrightarrow>
        h_digest_calls (hash s) = 1 \<and> hash (fst d2) = hash s)"
proof -
  let ?r = "stream_run ops (CheckStream opts now)"
  have i: "stream_inv (fst ?r)" by (rule reachable_inv)
  then have le: "h_digest_calls (hash (fst ?r)) \<le> 1"
    by (simp add: stream_inv_def split: option.splits)
  have "Emit_done \<in> set (snd ?r) \<longrightarrow> digest_cache (fst ?r) \<noteq> None"
    using done_run_cache [OF stream_inv_new, of ops opts now] by blast
  with digest_twice [OF i, of enc] le show ?thesis
    unfolding Let_def by blast
qed

lemma CheckStream_fields:
  "bytes (CheckStream opts now) = 0"
  "maxBytes (CheckStream opts now) = opt_maxBytes opts"
  "dead (CheckStream opts now) = False"
  "h_digest_calls (hash (CheckStream opts now)) = 0"
  "immediates (CheckStream opts now) = []"
  "counter (CheckStream opts now) = ''muskie_sent_bytes''"
  "collector (CheckStream opts now) = opt_collector opts"
  by (simp_all add: CheckStream_def createHash_def Let_def)


lemma write_all_dead:
  "dead s \<Longrightarrow> write_all cs e s = (s, replicate (length cs) (Callback None))"
  by (induction cs) (simp_all add: write_all_Nil write_all_Cons write_chunk_dead)

text \<open>
  Claim C6, as amended. Once the guard is abandoned (\<^verbatim>\<open>_dead\<close> is set, which only
  \<^verbatim>\<open>abandon\<close> does), every further chunk is a no-op: the state, and so the hash and
  the byte count, is unchanged, nothing is emitted and each callback completes
  without an error.
\<close>

theorem abandoned_chunks_are_noops:
  assumes "dead s"
  shows "write_chunk c e s = (s, [Callback None]) \<and>
         write_all cs e s = (s, replicate (length cs) (Callback None)) \<and>
         write_all cs e (abandon t) = (abandon t, replicate (length cs) (Callback None))"
proof -
  have "dead (abandon t)" by (simp add: abandon_def clearTimeout_def Let_def)
  with assms show ?thesis by (simp add: write_all_dead write_chunk_dead)
qed

theorem abandoned_chunks_are_noops_witness:
  "dead (abandon (CheckStream example_opts 0)) \<and>
   write_all [[1], [2, 3, 4, 5]] ''buffer'' (abandon (CheckStream example_opts 0))
     = (abandon (CheckStream example_opts 0), [Callback None, Callback None])"
proof -
  have d: "dead (abandon (CheckStream example_opts 0))"
    by (simp add: abandon_def clearTimeout_def Let_def)
  from abandoned_chunks_are_noops [OF d, of _ _ "[[1], [2, 3, 4, 5]]"] d
  show ?thesis by simp
qed

lemma exceeded_stream_fields:
  "dead exceeded_stream = False"
  "bytes exceeded_stream = 4"
  "maxBytes exceeded_stream = 3"
  "h_data (hash exceeded_stream) = [1, 2, 3, 4]"
  "h_digest_calls (hash exceeded_stream) = 0"
  "immediates exceeded_stream = []"
  "snd (stream_run [Write [1, 2, 3, 4] ''buffer'', Immediate] (CheckStream example_opts 0))
     = [Emit_length_exceeded 4, Callback (Some (MaxSizeExceededError 3))]"
  by (simp_all add: exceeded_stream_def CheckStream_def example_opts_def createHash_def
      write_chunk_def crypto_update_def clearTimeout_def setTimeout_def run_immediate_def
      write_immediate_def Let_def)

text \<open>
  Claim C6 fails as stated: \<^verbatim>\<open>_write\<close> tests \<^verbatim>\<open>_dead\<close> only. A guard with a
  budget of three bytes has emitted \<^verbatim>\<open>length_exceeded\<close> for a chunk of four and
  completed its callback with the error; a further chunk of one byte is hashed,
  counted (five bytes) and emits \<^verbatim>\<open>length_exceeded\<close> again.
\<close>

theorem chunk_after_length_exceeded:
  "snd (stream_run [Write [1, 2, 3, 4] ''buffer'', Immediate] (CheckStream example_opts 0))
     = [Emit_length_exceeded 4, Callback (Some (MaxSizeExceededError 3))] \<and>
   exceeded_stream
     = fst (stream_run [Write [1, 2, 3, 4] ''buffer'', Immediate] (CheckStream example_opts 0)) \<and>
   bytes exceeded_stream = 4 \<and>
   h_data (hash exceeded_stream) = [1, 2, 3, 4] \<and>
   snd (write_chunk [5] ''buffer'' exceeded_stream) = [Emit_length_exceeded 5] \<and>
   bytes (fst (write_chunk [5] ''buffer'' exceeded_stream)) = 5 \<and>
   h_data (hash (fst (write_chunk [5] ''buffer'' exceeded_stream))) = [1, 2, 3, 4, 5]"
proof -
  have a: "maxBytes exceeded_stream < int (bytes exceeded_stream + length [5 :: byte])"
    by (simp add: exceeded_stream_fields)
  have "\<not> dead exceeded_stream" "h_digest_calls (hash exceeded_stream) = 0"
    by (simp_all add: exceeded_stream_fields)
  note w = write_chunk_above [OF this a, of "''buffer''"]
  show ?thesis
    apply (intro conjI)
          apply (rule exceeded_stream_fields(7))
         apply (rule exceeded_stream_def)
        apply (simp_all add: w exceeded_stream_fields)
    done
qed

text \<open>
  Claim C7, evaluated on the code: a guard constructed with \<^verbatim>\<open>inbound: true\<close>
  counts its bytes in \<^verbatim>\<open>muskie_sent_bytes\<close>, and \<^verbatim>\<open>muskie_received_bytes\<close>
  stays as it was.
\<close>

theorem inbound_flag_not_read:
  "opt_inbound example_opts \<and>
   counter (CheckStream example_opts 0) = ''muskie_sent_bytes'' \<and>
   collector (fst (write_chunk [1, 2] ''buffer'' (CheckStream example_opts 0)))
     ''muskie_sent_bytes'' = 2 \<and>
   collector (fst (write_chunk [1, 2] ''buffer'' (CheckStream example_opts 0)))
     ''muskie_received_bytes'' = 0"
proof -
  let ?s = "CheckStream example_opts 0"
  have b: "int (bytes ?s + length [1, 2 :: byte]) \<le> maxBytes ?s"
    by (simp add: CheckStream_fields example_opts_def)
  have "\<not> dead ?s" "h_digest_calls (hash ?s) = 0" by (simp_all add: CheckStream_fields)
  note w = write_chunk_below [OF this b, of "''buffer''"]
  show ?thesis
    by (simp add: w CheckStream_fields) (simp add: example_opts_def)
qed

text \<open>
  Claim C8, evaluated on the code. The caller listens to \<^verbatim>\<open>done\<close>, the
  \<^verbatim>\<open>finish\<close> event reaches \<^verbatim>\<open>onFinish\<close>, which schedules its deferred function,
  and the caller abandons the guard before that function runs. \<^verbatim>\<open>abandon\<close> has
  returned without a signal; the deferred function, which does not test
  \<^verbatim>\<open>_dead\<close>, then emits \<^verbatim>\<open>done\<close>, and the listener of \<^verbatim>\<open>done\<close> is still
  attached.
\<close>

theorem done_fires_after_abandon:
  "snd (stream_run [On Ev_done, Finish, Abandon] (CheckStream example_opts 0)) = [] \<and>
   snd (run_immediate (abandon (fst (emit_finish (add_listener Ev_done
          (CheckStream example_opts 0)))))) = [Emit_done] \<and>
   Ev_done \<in> listeners (abandon (fst (emit_finish (add_listener Ev_done
          (CheckStream example_opts 0)))))"
  by (simp add: CheckStream_def example_opts_def createHash_def add_listener_def
      emit_finish_def abandon_def clearTimeout_def run_immediate_def onFinish_immediate_def
      crypto_digest_def Let_def)

theorem abandon_silences_witness:
  "Imm_done \<notin> set (immediates (fst (stream_run [Write [1, 2] ''buffer'']
       (CheckStream example_opts 0)))) \<and>
   list_all quiet (snd (stream_run [Write [3, 4] ''buffer'', Timer_fires 1, Finish, Immediate]
     (abandon (fst (stream_run [Write [1, 2] ''buffer''] (CheckStream example_opts 0))))))"
proof -
  have i: "Imm_done \<notin> set (immediates (fst (stream_run [Write [1, 2] ''buffer'']
       (CheckStream example_opts 0))))"
    by (simp add: CheckStream_def example_opts_def createHash_def write_chunk_def
        crypto_update_def clearTimeout_def setTimeout_def Let_def)
  from abandon_silences [of "[Write [1, 2] ''buffer'']" example_opts 0
      "[Write [3, 4] ''buffer'', Timer_fires 1, Finish, Immediate]"] i
  show ?thesis unfolding Let_def by blast
qed

theorem digest_idempotent_witness:
  "Emit_done \<in> set (snd (stream_run [Write [1, 2] ''buffer'', Finish, Immediate]
       (CheckStream example_opts 0))) \<and>
   h_digest_calls (hash (fst (stream_run [Write [1, 2] ''buffer'', Finish, Immediate]
       (CheckStream example_opts 0)))) = 1 \<and>
   h_digest_calls (hash (fst (digest (Some ''hex'') (fst (digest (Some ''hex'')
     (fst (stream_run [Write [1, 2] ''buffer'', Finish, Immediate]
       (CheckStream example_opts 0)))))))) = 1"
proof -
  have d: "Emit_done \<in> set (snd (stream_run [Write [1, 2] ''buffer'', Finish, Immediate]
       (CheckStream example_opts 0)))"
    by (simp add: CheckStream_def example_opts_def createHash_def write_chunk_def
        crypto_update_def clearTimeout_def setTimeout_def emit_finish_def run_immediate_def
        onFinish_immediate_def crypto_digest_def Let_def)
  from digest_idempotent [of "[Write [1, 2] ''buffer'', Finish, Immediate]" example_opts 0
      "Some ''hex''"] d
  show ?thesis unfolding Let_def by blast
qed

end
